theory Spec2Isabelle
  imports
    Main
    "HOL-Library.Word"
    "HOL-Library.Char_ord"
    "HOL-Library.List_Lexorder"
    "HOL-Library.FSet"
    "HOL-Library.Finite_Map"
begin

unbundle bit_operations_syntax

section \<open>Request signing of the Paynow client: \<open>internal/hash/hash.go\<close>\<close>

text \<open>
  The package has two functions. \<open>GenerateHash\<close> signs an outbound \<open>url.Values\<close>;
  \<open>ValidateHash\<close> checks the signature carried by a raw response body. Both call into
  Go's standard library (\<open>crypto/sha512\<close>, \<open>encoding/hex\<close>, \<open>strings\<close>, \<open>sort\<close>,
  \<open>net/url\<close>); the library functions they use are modelled first, each after its Go
  source, then the two functions of the package.

  A Go \<open>string\<close> is a sequence of bytes; so is a HOL \<open>string\<close> (a list of \<open>char\<close>, each
  one byte). Strings are compared byte-wise and lexicographically in both
  (\<open>Char_ord\<close>, \<open>List_Lexorder\<close>).
\<close>

type_synonym byte = "8 word"
type_synonym uint64 = "64 word"

subsection \<open>\<open>crypto/sha512\<close>\<close>

definition K512 :: "uint64 list" where
  "K512 =
   [0x428A2F98D728AE22, 0x7137449123EF65CD, 0xB5C0FBCFEC4D3B2F, 0xE9B5DBA58189DBBC,
    0x3956C25BF348B538, 0x59F111F1B605D019, 0x923F82A4AF194F9B, 0xAB1C5ED5DA6D8118,
    0xD807AA98A3030242, 0x12835B0145706FBE, 0x243185BE4EE4B28C, 0x550C7DC3D5FFB4E2,
    0x72BE5D74F27B896F, 0x80DEB1FE3B1696B1, 0x9BDC06A725C71235, 0xC19BF174CF692694,
    0xE49B69C19EF14AD2, 0xEFBE4786384F25E3, 0x0FC19DC68B8CD5B5, 0x240CA1CC77AC9C65,
    0x2DE92C6F592B0275, 0x4A7484AA6EA6E483, 0x5CB0A9DCBD41FBD4, 0x76F988DA831153B5,
    0x983E5152EE66DFAB, 0xA831C66D2DB43210, 0xB00327C898FB213F, 0xBF597FC7BEEF0EE4,
    0xC6E00BF33DA88FC2, 0xD5A79147930AA725, 0x06CA6351E003826F, 0x142929670A0E6E70,
    0x27B70A8546D22FFC, 0x2E1B21385C26C926, 0x4D2C6DFC5AC42AED, 0x53380D139D95B3DF,
    0x650A73548BAF63DE, 0x766A0ABB3C77B2A8, 0x81C2C92E47EDAEE6, 0x92722C851482353B,
    0xA2BFE8A14CF10364, 0xA81A664BBC423001, 0xC24B8B70D0F89791, 0xC76C51A30654BE30,
    0xD192E819D6EF5218, 0xD69906245565A910, 0xF40E35855771202A, 0x106AA07032BBD1B8,
    0x19A4C116B8D2D0C8, 0x1E376C085141AB53, 0x2748774CDF8EEB99, 0x34B0BCB5E19B48A8,
    0x391C0CB3C5C95A63, 0x4ED8AA4AE3418ACB, 0x5B9CCA4F7763E373, 0x682E6FF3D6B2B8A3,
    0x748F82EE5DEFB2FC, 0x78A5636F43172F60, 0x84C87814A1F0AB72, 0x8CC702081A6439EC,
    0x90BEFFFA23631E28, 0xA4506CEBDE82BDE9, 0xBEF9A3F7B2C67915, 0xC67178F2E372532B,
    0xCA273ECEEA26619C, 0xD186B8C721C0C207, 0xEADA7DD6CDE0EB1E, 0xF57D4F7FEE6ED178,
    0x06F067AA72176FBA, 0x0A637DC5A2C898A6, 0x113F9804BEF90DAE, 0x1B710B35131C471B,
    0x28DB77F523047D84, 0x32CAAB7B40C72493, 0x3C9EBE0A15C9BEBC, 0x431D67C49C100D4C,
    0x4CC5D4BECB3E42B6, 0x597F299CFC657E2A, 0x5FCB6FAB3AD6FAEC, 0x6C44198C4A475817]"

text \<open>The eight chaining words \<open>h[0..7]\<close> of the digest.\<close>

type_synonym hstate =
  "uint64 \<times> uint64 \<times> uint64 \<times> uint64 \<times> uint64 \<times> uint64 \<times> uint64 \<times> uint64"

definition init512 :: hstate where
  "init512 =
   (0x6A09E667F3BCC908, 0xBB67AE8584CAA73B, 0x3C6EF372FE94F82B, 0xA54FF53A5F1D36F1,
    0x510E527FADE682D1, 0x9B05688C2B3E6C1F, 0x1F83D9ABFB41BD6B, 0x5BE0CD19137E2179)"

text \<open>\<open>binary.BigEndian\<close>: eight bytes to a word and back.\<close>

definition be_uint64 :: "byte list \<Rightarrow> uint64" where
  "be_uint64 bs = foldl (\<lambda>acc b. push_bit 8 acc OR ucast b) 0 bs"

definition put_uint64 :: "uint64 \<Rightarrow> byte list" where
  "put_uint64 v = map (\<lambda>i. ucast (drop_bit (8 * i) v)) [7, 6, 5, 4, 3, 2, 1, 0]"

text \<open>
  The message schedule of \<open>blockGeneric\<close>: \<open>w[0..15]\<close> are read from the block,
  \<open>w[16..79]\<close> are computed from the earlier entries. \<open>bits.RotateLeft64 v (-n)\<close> is a
  rotation to the right by \<open>n\<close>.
\<close>

definition schedule_step :: "uint64 list \<Rightarrow> uint64" where
  "schedule_step w =
    (let i = length w;
         v1 = w ! (i - 2);
         t1 = word_rotr 19 v1 XOR word_rotr 61 v1 XOR drop_bit 6 v1;
         v2 = w ! (i - 15);
         t2 = word_rotr 1 v2 XOR word_rotr 8 v2 XOR drop_bit 7 v2
     in t1 + w ! (i - 7) + t2 + w ! (i - 16))"

fun schedule :: "nat \<Rightarrow> uint64 list \<Rightarrow> uint64 list" where
  "schedule 0 w = w"
| "schedule (Suc n) w = schedule n (w @ [schedule_step w])"

definition block_words :: "byte list \<Rightarrow> uint64 list" where
  "block_words p = map (\<lambda>i. be_uint64 (take 8 (drop (8 * i) p))) [0..<16]"

fun round512 :: "hstate \<Rightarrow> uint64 \<times> uint64 \<Rightarrow> hstate" where
  "round512 (a, b, c, d, e, f, g, h) (k, w) =
    (let t1 = h + (word_rotr 14 e XOR word_rotr 18 e XOR word_rotr 41 e)
                + ((e AND f) XOR (NOT e AND g)) + k + w;
         t2 = (word_rotr 28 a XOR word_rotr 34 a XOR word_rotr 39 a)
                + ((a AND b) XOR (a AND c) XOR (b AND c))
     in (t1 + t2, a, b, c, d + t1, e, f, g))"

fun add_state :: "hstate \<Rightarrow> hstate \<Rightarrow> hstate" where
  "add_state (h0, h1, h2, h3, h4, h5, h6, h7) (a, b, c, d, e, f, g, h) =
     (h0 + a, h1 + b, h2 + c, h3 + d, h4 + e, h5 + f, h6 + g, h7 + h)"

definition block512 :: "hstate \<Rightarrow> byte list \<Rightarrow> hstate" where
  "block512 hs p =
     add_state hs (foldl round512 hs (zip K512 (schedule 64 (block_words p))))"

text \<open>The loop \<open>for len(p) >= chunk\<close> of \<open>blockGeneric\<close>, with \<open>chunk = 128\<close>.\<close>

function blockGeneric :: "hstate \<Rightarrow> byte list \<Rightarrow> hstate" where
  "blockGeneric hs p =
     (if 128 \<le> length p then blockGeneric (block512 hs (take 128 p)) (drop 128 p) else hs)"
  by pat_completeness auto
termination
  by (relation "measure (\<lambda>(hs, p). length p)") auto

declare blockGeneric.simps [simp del]

text \<open>
  \<open>checkSum\<close>: a \<open>0x80\<close> byte, zero bytes up to 112 modulo 128, and the length in bits
  as a 128-bit big-endian number whose upper 64 bits are zero; the length is a \<open>uint64\<close>
  and \<open>len <<= 3\<close> wraps.
\<close>

definition padding512 :: "nat \<Rightarrow> byte list" where
  "padding512 len =
    (let t = (if len mod 128 < 112 then 112 - len mod 128 else 128 + 112 - len mod 128)
     in 0x80 # replicate (t - 1) 0 @ replicate 8 0
          @ put_uint64 (push_bit 3 (word_of_nat len)))"

fun state_bytes :: "hstate \<Rightarrow> byte list" where
  "state_bytes (h0, h1, h2, h3, h4, h5, h6, h7) =
     put_uint64 h0 @ put_uint64 h1 @ put_uint64 h2 @ put_uint64 h3
       @ put_uint64 h4 @ put_uint64 h5 @ put_uint64 h6 @ put_uint64 h7"

definition Sum512 :: "byte list \<Rightarrow> byte list" where
  "Sum512 data = state_bytes (blockGeneric init512 (data @ padding512 (length data)))"

subsection \<open>\<open>encoding/hex\<close> and \<open>strings\<close>\<close>

definition hextable :: string where
  "hextable = ''0123456789abcdef''"

definition EncodeToString :: "byte list \<Rightarrow> string" where
  "EncodeToString src =
     concat (map (\<lambda>v. [hextable ! unat (drop_bit 4 v), hextable ! unat (v AND 0x0f)]) src)"

text \<open>
  \<open>strings.ToUpper\<close> and \<open>strings.ToLower\<close> on the ASCII letters. Go maps the other
  letters of Unicode too. No rune outside ASCII is lower-cased to \<open>h\<close>, \<open>a\<close> or \<open>s\<close>
  (only U+0130 and U+212A have an ASCII lower case, \<open>i\<close> and \<open>k\<close>), and an invalid byte
  becomes U+FFFD, so the test \<open>strings.ToLower(k) == "hash"\<close>, the only use of
  \<open>ToLower\<close> in the package, has the same outcome; \<open>ToUpper\<close> is only applied to the
  output of \<open>hex.EncodeToString\<close>, which is ASCII.
\<close>

definition upper_byte :: "char \<Rightarrow> char" where
  "upper_byte c = (if CHR ''a'' \<le> c \<and> c \<le> CHR ''z'' then char_of (of_char c - (32::nat)) else c)"

definition lower_byte :: "char \<Rightarrow> char" where
  "lower_byte c = (if CHR ''A'' \<le> c \<and> c \<le> CHR ''Z'' then char_of (of_char c + (32::nat)) else c)"

definition ToUpper :: "string \<Rightarrow> string" where
  "ToUpper s = map upper_byte s"

definition ToLower :: "string \<Rightarrow> string" where
  "ToLower s = map lower_byte s"

text \<open>The conversion \<open>[]byte(s)\<close>.\<close>

definition bytes :: "string \<Rightarrow> byte list" where
  "bytes s = map of_char s"

subsection \<open>\<open>url.Values\<close>\<close>

text \<open>
  \<open>url.Values\<close> is \<open>map[string][]string\<close>: finitely many names, each with a list of
  values. \<open>Get\<close> returns the first value of a name, and the empty string when the name
  is absent or its list is empty.
\<close>

type_synonym Values = "(string, string list) fmap"

definition Get :: "Values \<Rightarrow> string \<Rightarrow> string" where
  "Get v key =
     (case fmlookup v key of
        None \<Rightarrow> ''''
      | Some vs \<Rightarrow> (case vs of [] \<Rightarrow> '''' | x # _ \<Rightarrow> x))"

subsection \<open>\<open>GenerateHash\<close>\<close>

text \<open>
  The first loop ranges over the map, in an order Go leaves unspecified, and keeps the
  names other than \<open>hash\<close>; \<open>collect_keys\<close> is that loop over the names in the order
  \<open>ks\<close> in which the map yields them. \<open>sort.Strings\<close> then sorts them; the second loop
  writes the first value of each into the builder.
\<close>

fun collect_keys :: "string list \<Rightarrow> string list \<Rightarrow> string list" where
  "collect_keys keys [] = keys"
| "collect_keys keys (k # ks) =
     (if ToLower k \<noteq> ''hash'' then collect_keys (keys @ [k]) ks else collect_keys keys ks)"

fun write_values :: "Values \<Rightarrow> string \<Rightarrow> string list \<Rightarrow> string" where
  "write_values values hashString [] = hashString"
| "write_values values hashString (k # ks) = write_values values (hashString @ Get values k) ks"

definition GenerateHash_in :: "string list \<Rightarrow> Values \<Rightarrow> string \<Rightarrow> string" where
  "GenerateHash_in order values integrationKey =
    (let keys = sort (collect_keys [] order);
         hashString = write_values values '''' keys @ integrationKey;
         hash = Sum512 (bytes hashString)
     in ToUpper (EncodeToString hash))"

text \<open>
  \<open>GenerateHash\<close> itself, with the map ranged over in ascending order of the names.
  Lemma \<open>GenerateHash_any_order\<close> shows that every other order gives the same result.
\<close>

definition GenerateHash :: "Values \<Rightarrow> string \<Rightarrow> string" where
  "GenerateHash values integrationKey =
     GenerateHash_in (sorted_list_of_fset (fmdom values)) values integrationKey"

subsection \<open>\<open>strings.Split\<close> and \<open>strings.SplitN\<close>\<close>

text \<open>
  Both are \<open>genSplit\<close> with a separator of one byte: the loop cuts \<open>s\<close> at the first
  separator (\<open>strings.Index\<close>) at most \<open>n - 1\<close> times and returns the pieces and the
  rest. The first argument of \<open>genSplit\<close> below is the number of cuts the loop may still
  make. \<open>Split\<close> allows one cut for each separator in \<open>s\<close> (\<open>n = Count(s, sep) + 1\<close>);
  \<open>SplitN\<close> bounds \<open>n\<close> by \<open>len(s) + 1\<close> and returns \<open>nil\<close> for \<open>n = 0\<close>.
\<close>

fun genSplit :: "nat \<Rightarrow> string \<Rightarrow> char \<Rightarrow> string list" where
  "genSplit 0 s sep = [s]"
| "genSplit (Suc n) s sep =
     (if sep \<in> set s
      then takeWhile (\<lambda>c. c \<noteq> sep) s # genSplit n (tl (dropWhile (\<lambda>c. c \<noteq> sep) s)) sep
      else [s])"

definition Split :: "string \<Rightarrow> char \<Rightarrow> string list" where
  "Split s sep = genSplit (count_list s sep) s sep"

definition SplitN :: "string \<Rightarrow> char \<Rightarrow> nat \<Rightarrow> string list" where
  "SplitN s sep n = (if n = 0 then [] else genSplit (min n (length s + 1) - 1) s sep)"

subsection \<open>\<open>url.QueryUnescape\<close> and \<open>url.QueryEscape\<close>\<close>

datatype url_error = EscapeError string

definition ishex :: "char \<Rightarrow> bool" where
  "ishex c \<longleftrightarrow>
     (CHR ''0'' \<le> c \<and> c \<le> CHR ''9'') \<or> (CHR ''a'' \<le> c \<and> c \<le> CHR ''f'')
       \<or> (CHR ''A'' \<le> c \<and> c \<le> CHR ''F'')"

definition unhex :: "char \<Rightarrow> byte" where
  "unhex c =
     (if CHR ''0'' \<le> c \<and> c \<le> CHR ''9'' then of_char c - of_char CHR ''0''
      else if CHR ''a'' \<le> c \<and> c \<le> CHR ''f'' then of_char c - of_char CHR ''a'' + 10
      else if CHR ''A'' \<le> c \<and> c \<le> CHR ''F'' then of_char c - of_char CHR ''A'' + 10
      else 0)"

text \<open>
  The first loop of \<open>unescape\<close> (mode \<open>encodeQueryComponent\<close>) looks for a \<open>%\<close> that is
  not followed by two hexadecimal digits; its result here is the text of the
  \<open>EscapeError\<close>, at most three bytes from that \<open>%\<close> on.
\<close>

fun unescape_check :: "string \<Rightarrow> string option" where
  "unescape_check [] = None"
| "unescape_check (c # s) =
     (if c = CHR ''%'' then
        (case s of
           a # b # s' \<Rightarrow>
             if ishex a \<and> ishex b then unescape_check s' else Some (take 3 (c # s))
         | _ \<Rightarrow> Some (take 3 (c # s)))
      else unescape_check s)"

text \<open>
  The second loop writes the decoded bytes. It runs only on a string that has passed
  the first loop, so a \<open>%\<close> always has its two digits; the last case of the inner
  \<^theory_text>\<open>case\<close> is never reached.
\<close>

fun unescape_write :: "string \<Rightarrow> string" where
  "unescape_write [] = []"
| "unescape_write (c # s) =
     (if c = CHR ''%'' then
        (case s of
           a # b # s' \<Rightarrow>
             char_of (unat (push_bit 4 (unhex a) OR unhex b)) # unescape_write s'
         | _ \<Rightarrow> [])
      else if c = CHR ''+'' then CHR '' '' # unescape_write s
      else c # unescape_write s)"

definition QueryUnescape :: "string \<Rightarrow> url_error + string" where
  "QueryUnescape s =
     (case unescape_check s of
        Some e \<Rightarrow> Inl (EscapeError e)
      | None \<Rightarrow>
          if CHR ''%'' \<notin> set s \<and> CHR ''+'' \<notin> set s then Inr s else Inr (unescape_write s))"

definition shouldEscape :: "char \<Rightarrow> bool" where
  "shouldEscape c \<longleftrightarrow>
     \<not> ((CHR ''a'' \<le> c \<and> c \<le> CHR ''z'') \<or> (CHR ''A'' \<le> c \<and> c \<le> CHR ''Z'')
          \<or> (CHR ''0'' \<le> c \<and> c \<le> CHR ''9'')
          \<or> c = CHR ''-'' \<or> c = CHR ''_'' \<or> c = CHR ''.'' \<or> c = CHR ''~'')"

definition upperhex :: string where
  "upperhex = ''0123456789ABCDEF''"

definition escape_byte :: "char \<Rightarrow> string" where
  "escape_byte c =
     (if c = CHR '' '' then ''+''
      else if shouldEscape c
        then [CHR ''%'', upperhex ! (of_char c div 16), upperhex ! (of_char c mod 16)]
      else [c])"

definition QueryEscape :: "string \<Rightarrow> string" where
  "QueryEscape s = concat (map escape_byte s)"

subsection \<open>\<open>ValidateHash\<close>\<close>

text \<open>
  The two errors of \<open>ValidateHash\<close>, with the arguments of their \<open>fmt.Errorf\<close>:
  \<open>failed to decode value for key %s: %w\<close> and
  \<open>invalid hash: received %s, expected %s\<close>. The result \<open>None\<close> is Go's \<open>nil\<close>.
\<close>

datatype error =
    DecodeError string url_error
  | InvalidHash string string

text \<open>
  The loop over \<open>pairs\<close>; its state is the builder \<open>hashString\<close> and \<open>receivedHash\<close>.
  A \<open>return\<close> inside the loop is the result \<open>Inl\<close>.
\<close>

fun scan_pairs :: "string list \<Rightarrow> string \<times> string \<Rightarrow> error + string \<times> string" where
  "scan_pairs [] st = Inr st"
| "scan_pairs (pair # pairs) (hashString, receivedHash) =
     (let kv = SplitN pair CHR ''='' 2 in
      if length kv \<noteq> 2 then scan_pairs pairs (hashString, receivedHash)
      else
        let key = kv ! 0; val = kv ! 1 in
        if ToLower key = ''hash'' then scan_pairs pairs (hashString, val)
        else
          (case QueryUnescape val of
             Inl err \<Rightarrow> Inl (DecodeError key err)
           | Inr decodedValue \<Rightarrow> scan_pairs pairs (hashString @ decodedValue, receivedHash)))"

text \<open>The function after \<open>strings.Split\<close>: the loop, then the comparison.\<close>

definition validate_pairs :: "string list \<Rightarrow> string \<Rightarrow> error option" where
  "validate_pairs pairs integrationKey =
     (case scan_pairs pairs ('''', '''') of
        Inl err \<Rightarrow> Some err
      | Inr (hashString, receivedHash) \<Rightarrow>
          (let hash = Sum512 (bytes (hashString @ integrationKey));
               expectedHash = ToUpper (EncodeToString hash)
           in if receivedHash \<noteq> expectedHash
              then Some (InvalidHash receivedHash expectedHash) else None))"

definition ValidateHash :: "string \<Rightarrow> string \<Rightarrow> error option" where
  "ValidateHash rawBody integrationKey =
     validate_pairs (Split rawBody CHR ''&'') integrationKey"

section \<open>The specification's notions\<close>

text \<open>
  The specification speaks of the upper-case hexadecimal text of a digest, and of the
  names of a field set other than \<open>hash\<close> in ascending order. Both are defined here in
  the specification's words, and compared with the code below.
\<close>

definition upper_hex :: "byte list \<Rightarrow> string" where
  "upper_hex bs =
     concat (map (\<lambda>v. [upperhex ! (unat v div 16), upperhex ! (unat v mod 16)]) bs)"

definition signed_names :: "Values \<Rightarrow> string list" where
  "signed_names V = sorted_list_of_fset (ffilter (\<lambda>k. ToLower k \<noteq> ''hash'') (fmdom V))"

definition signer_input :: "Values \<Rightarrow> string \<Rightarrow> string" where
  "signer_input V K = concat (map (Get V) (signed_names V)) @ K"

text \<open>
  The specification's Verifier works on the pairs of the payload: a token with a \<open>=\<close>
  is a pair, its name is the text before the first \<open>=\<close> and its value the text after
  it. Lemma \<open>SplitN_2\<close> shows that this is what \<open>strings.SplitN(pair, "=", 2)\<close> returns.
  A pair is a hash pair when its name is \<open>hash\<close> in any letter case, and a data pair
  otherwise.
\<close>

definition is_pair :: "string \<Rightarrow> bool" where
  "is_pair t \<longleftrightarrow> CHR ''='' \<in> set t"

definition pair_name :: "string \<Rightarrow> string" where
  "pair_name t = takeWhile (\<lambda>c. c \<noteq> CHR ''='') t"

definition pair_value :: "string \<Rightarrow> string" where
  "pair_value t = tl (dropWhile (\<lambda>c. c \<noteq> CHR ''='') t)"

definition is_hash_pair :: "string \<Rightarrow> bool" where
  "is_hash_pair t \<longleftrightarrow> is_pair t \<and> ToLower (pair_name t) = ''hash''"

definition is_data_pair :: "string \<Rightarrow> bool" where
  "is_data_pair t \<longleftrightarrow> is_pair t \<and> ToLower (pair_name t) \<noteq> ''hash''"

text \<open>
  The decode error of the first data pair, in the order of the text, whose value
  cannot be percent-decoded; \<open>None\<close> when every data pair decodes.
\<close>

fun first_failure :: "string list \<Rightarrow> error option" where
  "first_failure [] = None"
| "first_failure (t # ts) =
     (if is_data_pair t then
        (case QueryUnescape (pair_value t) of
           Inl e \<Rightarrow> Some (DecodeError (pair_name t) e)
         | Inr d \<Rightarrow> first_failure ts)
      else first_failure ts)"

text \<open>
  The hash input of the Verifier without the secret: the decoded values of the data
  pairs, concatenated in the order of the text. The received signature: the value, as
  it stands in the text, of the last hash pair, and the empty string when there is none.
\<close>

definition decoded_value :: "string \<Rightarrow> string" where
  "decoded_value t = (case QueryUnescape (pair_value t) of Inl e \<Rightarrow> '''' | Inr d \<Rightarrow> d)"

definition wire_input :: "string list \<Rightarrow> string" where
  "wire_input ts = concat (map decoded_value (filter is_data_pair ts))"

definition received_hash :: "string list \<Rightarrow> string" where
  "received_hash ts = last ('''' # map pair_value (filter is_hash_pair ts))"

definition verifier :: "string list \<Rightarrow> string \<Rightarrow> error option" where
  "verifier ts K =
     (case first_failure ts of
        Some e \<Rightarrow> Some e
      | None \<Rightarrow>
          if received_hash ts \<noteq> upper_hex (Sum512 (bytes (wire_input ts @ K)))
          then Some (InvalidHash (received_hash ts) (upper_hex (Sum512 (bytes (wire_input ts @ K)))))
          else None)"

text \<open>
  The round trip of the specification. A field set gives each name one value;
  \<open>to_Values\<close> is the \<open>url.Values\<close> that \<open>Set\<close> builds from it, and \<open>Values_Set\<close> is
  \<open>Values.Set\<close>, which \<open>SendMobile\<close> uses to attach the signature under the name \<open>hash\<close>.
\<close>

type_synonym field_set = "(string, string) fmap"

definition to_Values :: "field_set \<Rightarrow> Values" where
  "to_Values F = fmmap (\<lambda>v. [v]) F"

definition Values_Set :: "Values \<Rightarrow> string \<Rightarrow> string \<Rightarrow> Values" where
  "Values_Set v key val = fmupd key [val] v"

text \<open>
  \<open>url.Values.Encode\<close>, by which \<open>http.PostForm\<close> writes the form: the names in
  ascending order, for each name its values in their order, name and value both
  percent-encoded, and a \<open>&\<close> before every pair but the first (\<open>buf.Len() > 0\<close>).
\<close>

fun encode_values :: "string \<Rightarrow> string \<Rightarrow> string list \<Rightarrow> string" where
  "encode_values buf keyEscaped [] = buf"
| "encode_values buf keyEscaped (v # vs) =
     encode_values
       ((if buf \<noteq> [] then buf @ ''&'' else buf) @ keyEscaped @ ''='' @ QueryEscape v)
       keyEscaped vs"

fun encode_keys :: "Values \<Rightarrow> string \<Rightarrow> string list \<Rightarrow> string" where
  "encode_keys v buf [] = buf"
| "encode_keys v buf (k # keys) =
     encode_keys v
       (encode_values buf (QueryEscape k) (case fmlookup v k of None \<Rightarrow> [] | Some vs \<Rightarrow> vs))
       keys"

definition Encode :: "Values \<Rightarrow> string" where
  "Encode v =
     (if fmdom v = {||} then ''''
      else encode_keys v '''' (sort (sorted_list_of_fset (fmdom v))))"

text \<open>
  The text of the round trip as the specification words it: the pairs \<open>name=value\<close> of
  the field set in ascending order of the names, in the standard form encoding (name
  and value percent-encoded, as \<open>Encode\<close> writes them), joined with \<open>&\<close>
  (\<open>strings.Join\<close>), and \<open>hash=<sig>\<close> last.
\<close>

fun Join :: "string list \<Rightarrow> string \<Rightarrow> string" where
  "Join [] sep = ''''"
| "Join [a] sep = a"
| "Join (a # b # bs) sep = a @ sep @ Join (b # bs) sep"

definition form_pair :: "string \<Rightarrow> string \<Rightarrow> string" where
  "form_pair k v = QueryEscape k @ ''='' @ QueryEscape v"

definition serialize :: "field_set \<Rightarrow> string \<Rightarrow> string" where
  "serialize F sig =
     Join (map (\<lambda>k. form_pair k (Get (to_Values F) k)) (sorted_list_of_fset (fmdom F))
             @ [''hash='' @ sig]) ''&''"

text \<open>The value of a name in a \<open>url.Values\<close>, read from the map itself: its first value.\<close>

definition first_value :: "Values \<Rightarrow> string \<Rightarrow> string" where
  "first_value v k = (case fmlookup v k of Some (x # xs) \<Rightarrow> x | _ \<Rightarrow> '''')"

section \<open>Digest and hexadecimal text\<close>

lemma length_put_uint64: "length (put_uint64 v) = 8"
  by (simp add: put_uint64_def)

lemma length_state_bytes: "length (state_bytes hs) = 64"
  by (cases hs rule: state_bytes.cases) (simp add: length_put_uint64)

lemma length_Sum512: "length (Sum512 d) = 64"
  by (simp add: Sum512_def length_state_bytes)

lemma hi_nibble: "unat (drop_bit 4 (v::byte)) = unat v div 16"
  by (simp add: drop_bit_eq_div unat_div)

lemma mask4: "(0x0f :: byte) = mask 4"
  by (simp add: mask_eq_exp_minus_1)

lemma lo_nibble: "unat ((v::byte) AND 0x0f) = unat v mod 16"
  unfolding mask4 by (simp add: take_bit_eq_mod unat_mod flip: take_bit_eq_mask)

lemma byte_less: "unat (v::byte) < 256"
  using unsigned_less [of v, where 'a = nat] by simp

lemma upper_hextable_all:
  "list_all (\<lambda>i. upper_byte (hextable ! i) = upperhex ! i) [0..<16]"
  by code_simp

lemma upper_hextable: "i < 16 \<Longrightarrow> upper_byte (hextable ! i) = upperhex ! i"
  using upper_hextable_all by (simp add: list_all_iff)

text \<open>\<open>strings.ToUpper\<close> of \<open>hex.EncodeToString\<close> is the upper-case hexadecimal text.\<close>

lemma ToUpper_EncodeToString: "ToUpper (EncodeToString bs) = upper_hex bs"
proof (induction bs)
  case Nil
  show ?case by (simp add: ToUpper_def EncodeToString_def upper_hex_def)
next
  case (Cons v bs)
  have hi: "unat v div 16 < 16" using byte_less [of v] by simp
  have lo: "unat v mod 16 < 16" by simp
  from Cons show ?case
    by (simp add: ToUpper_def EncodeToString_def upper_hex_def hi_nibble lo_nibble
        upper_hextable [OF hi] upper_hextable [OF lo])
qed

lemma length_upper_hex: "length (upper_hex bs) = 2 * length bs"
  by (induction bs) (simp_all add: upper_hex_def)

lemma upperhex_nth_all:
  "list_all (\<lambda>i. upperhex ! i \<in> set ''0123456789ABCDEF'') [0..<16]"
  by code_simp

lemma upperhex_nth: "i < 16 \<Longrightarrow> upperhex ! i \<in> set ''0123456789ABCDEF''"
  using upperhex_nth_all by (simp add: list_all_iff)

lemma set_upper_hex: "set (upper_hex bs) \<subseteq> set ''0123456789ABCDEF''"
proof (induction bs)
  case Nil
  show ?case by (simp add: upper_hex_def)
next
  case (Cons v bs)
  have hi: "unat v div 16 < 16" using byte_less [of v] by simp
  have lo: "unat v mod 16 < 16" by simp
  from Cons upperhex_nth [OF hi] upperhex_nth [OF lo] show ?case
    by (simp add: upper_hex_def)
qed

text \<open>
  A test vector: the digest of \<open>56s\<close>, computed by the model of \<open>crypto/sha512\<close> above
  and written in upper-case hexadecimal, is the SHA-512 value of that text.
\<close>

lemma digest_56s:
  "upper_hex (Sum512 (bytes ''56s''))
     = ''1B0F3B5FFDC7EA4475A533240AF4196B75ECD59C8DB7CE9A164F0E54D6E39E5CD3F3FDE1ED2B71BA47249FEABC855CF574C9CB45ECE9EB899C143984C3ECF0D8''"
  by code_simp

text \<open>
  The order of strings is Go's: byte by byte, the first difference decides, and a proper
  prefix comes first.
\<close>

lemma string_order:
  "[] < c # s" "\<not> s < []"
  "c # s < d # t \<longleftrightarrow> c < d \<or> c = d \<and> s < t"
  "c < d \<longleftrightarrow> (of_char c :: nat) < of_char d"
  for c d :: char and s t :: string
  by (simp_all add: less_char_def)

section \<open>\<open>GenerateHash\<close>: the loops and the order of the names\<close>

lemma collect_keys_filter:
  "collect_keys keys ks = keys @ filter (\<lambda>k. ToLower k \<noteq> ''hash'') ks"
  by (induction ks arbitrary: keys) auto

lemma write_values_concat: "write_values V acc ks = acc @ concat (map (Get V) ks)"
  by (induction ks arbitrary: acc) auto

text \<open>
  Whatever the order in which the names of a finite set are enumerated, filtering and
  sorting them gives the sorted list of the filtered set.
\<close>

lemma sort_filter_enumeration:
  assumes "distinct order" and "set order = fset A"
  shows "sort (filter P order) = sorted_list_of_fset (ffilter P A)"
proof -
  have "set (filter P order) = fset (ffilter P A)"
    using assms(2) by auto
  moreover have "distinct (filter P order)"
    using assms(1) by simp
  ultimately have "sorted_list_of_set (fset (ffilter P A)) = sort (filter P order)"
    using sorted_list_of_set_sort_remdups [of "filter P order"] by (simp add: distinct_remdups_id)
  then show ?thesis
    by (simp add: sorted_list_of_fset.rep_eq)
qed

lemma GenerateHash_in_spec:
  assumes "distinct order" and "set order = fset (fmdom V)"
  shows "GenerateHash_in order V K = upper_hex (Sum512 (bytes (signer_input V K)))"
  using sort_filter_enumeration [OF assms, of "\<lambda>k. ToLower k \<noteq> ''hash''"]
  by (simp add: GenerateHash_in_def collect_keys_filter write_values_concat
      ToUpper_EncodeToString signer_input_def signed_names_def)

lemma GenerateHash_spec:
  "GenerateHash V K = upper_hex (Sum512 (bytes (signer_input V K)))"
  unfolding GenerateHash_def
  by (rule GenerateHash_in_spec) (simp_all add: sorted_list_of_fset.rep_eq)

text \<open>The result does not depend on the order in which Go ranges over the map.\<close>

lemma GenerateHash_any_order:
  "distinct order \<Longrightarrow> set order = fset (fmdom V) \<Longrightarrow>
     GenerateHash_in order V K = GenerateHash V K"
  by (simp add: GenerateHash_in_spec GenerateHash_spec)

lemma signed_names_sorted: "sorted_wrt (<) (signed_names V)"
  by (simp add: signed_names_def sorted_list_of_fset.rep_eq strict_sorted_iff)

lemma signed_names_set:
  "set (signed_names V) = {k. k |\<in>| fmdom V \<and> ToLower k \<noteq> ''hash''}"
  by (auto simp: signed_names_def)

lemma signed_names_fmupd_hash:
  "ToLower h = ''hash'' \<Longrightarrow> signed_names (fmupd h vs V) = signed_names V"
proof -
  assume h: "ToLower h = ''hash''"
  have "ffilter (\<lambda>k. ToLower k \<noteq> ''hash'') (finsert h (fmdom V))
      = ffilter (\<lambda>k. ToLower k \<noteq> ''hash'') (fmdom V)"
    using h by auto
  then show ?thesis
    by (simp add: signed_names_def)
qed

lemma Get_fmupd_other: "k \<noteq> h \<Longrightarrow> Get (fmupd h vs V) k = Get V k"
  by (simp add: Get_def)

lemma signer_input_fmupd_hash:
  assumes "ToLower h = ''hash''"
  shows "signer_input (fmupd h vs V) K = signer_input V K"
proof -
  have "map (Get (fmupd h vs V)) (signed_names V) = map (Get V) (signed_names V)"
    using assms by (intro map_cong refl Get_fmupd_other) (auto simp: signed_names_set)
  then show ?thesis
    by (simp only: signer_input_def signed_names_fmupd_hash [OF assms])
qed

lemma Get_first: "Get (fmupd k (v # vs) V) = Get (fmupd k [v] V)"
  by (rule ext) (simp add: Get_def)

lemma signer_input_ab:
  "signer_input (fmap_of_list [(''a'', [''1'']), (''b'', [''2''])]) ''key'' = ''12key''"
  by code_simp

section \<open>\<open>ValidateHash\<close>: tokens, pairs and percent-encoding\<close>

lemma SplitN_2:
  "SplitN t CHR ''='' 2 = (if is_pair t then [pair_name t, pair_value t] else [t])"
proof (cases t)
  case Nil
  then show ?thesis by (simp add: SplitN_def is_pair_def)
next
  case (Cons c cs)
  then have "min 2 (length t + 1) - 1 = Suc 0" by simp
  then show ?thesis
    by (simp add: SplitN_def is_pair_def pair_name_def pair_value_def)
qed

lemma scan_pairs_Cons:
  "scan_pairs (t # ts) (hs, r) =
     (if \<not> is_pair t then scan_pairs ts (hs, r)
      else if ToLower (pair_name t) = ''hash'' then scan_pairs ts (hs, pair_value t)
      else (case QueryUnescape (pair_value t) of
              Inl e \<Rightarrow> Inl (DecodeError (pair_name t) e)
            | Inr d \<Rightarrow> scan_pairs ts (hs @ d, r)))"
  by (simp add: SplitN_2 Let_def)

lemma scan_pairs_spec:
  "scan_pairs ts (hs, r) =
     (case first_failure ts of
        Some e \<Rightarrow> Inl e
      | None \<Rightarrow> Inr (hs @ wire_input ts, last (r # map pair_value (filter is_hash_pair ts))))"
proof (induction ts arbitrary: hs r)
  case Nil
  show ?case by (simp add: wire_input_def)
next
  case (Cons t ts)
  show ?case
    unfolding scan_pairs_Cons
    by (simp add: Cons.IH wire_input_def is_hash_pair_def is_data_pair_def decoded_value_def
        split: sum.splits option.splits)
qed

lemma validate_pairs_spec: "validate_pairs ts K = verifier ts K"
  by (simp add: validate_pairs_def verifier_def scan_pairs_spec received_hash_def
      ToUpper_EncodeToString Let_def split: option.splits)

lemma genSplit_cut:
  assumes "sep \<notin> set a"
  shows "genSplit (Suc n) (a @ sep # r) sep = a # genSplit n r sep"
proof -
  have a: "\<And>x. x \<in> set a \<Longrightarrow> x \<noteq> sep"
    using assms by auto
  have "takeWhile (\<lambda>c. c \<noteq> sep) (a @ sep # r) = a"
    using a by simp
  moreover have "dropWhile (\<lambda>c. c \<noteq> sep) (a @ sep # r) = sep # r"
    using a by simp
  ultimately show ?thesis
    by simp
qed

lemma Split_cut: "sep \<notin> set a \<Longrightarrow> Split (a @ sep # r) sep = a # Split r sep"
  by (simp add: Split_def genSplit_cut del: genSplit.simps)

lemma Split_whole: "sep \<notin> set s \<Longrightarrow> Split s sep = [s]"
  by (simp add: Split_def)

lemma ValidateHash_spec: "ValidateHash raw K = verifier (Split raw CHR ''&'') K"
  by (simp add: ValidateHash_def validate_pairs_spec)

lemma first_failure_append:
  "first_failure (xs @ ys) =
     (case first_failure xs of Some e \<Rightarrow> Some e | None \<Rightarrow> first_failure ys)"
  by (induction xs) (simp_all split: sum.splits)

lemma first_failure_data:
  "first_failure (filter (\<lambda>t. \<not> is_hash_pair t) ts) = first_failure ts"
  by (induction ts) (auto simp: is_hash_pair_def is_data_pair_def split: sum.splits)

lemma data_filter:
  "filter is_data_pair (filter (\<lambda>t. \<not> is_hash_pair t) ts) = filter is_data_pair ts"
  by (induction ts) (auto simp: is_hash_pair_def is_data_pair_def)

lemma wire_input_data: "wire_input (filter (\<lambda>t. \<not> is_hash_pair t) ts) = wire_input ts"
  by (simp only: wire_input_def data_filter)

lemma first_failure_None_iff:
  "first_failure ts = None \<longleftrightarrow>
     (\<forall>t\<in>set ts. is_data_pair t \<longrightarrow> (\<exists>d. QueryUnescape (pair_value t) = Inr d))"
  by (induction ts) (auto split: sum.splits)

lemma upper_hex_nonempty: "upper_hex (Sum512 d) \<noteq> ''''"
  using length_upper_hex [of "Sum512 d"] by (auto simp: length_Sum512)

lemma hash_lower: "ToLower ''hash'' = ''hash''"
  by code_simp

lemma x_lower: "ToLower ''x'' \<noteq> ''hash''" "ToLower ''y'' \<noteq> ''hash''"
  by code_simp+

lemma unescape_digits: "QueryUnescape ''5'' = Inr ''5''" "QueryUnescape ''6'' = Inr ''6''"
  by code_simp+

lemma Split_sep: "Split (sep # r) sep = [] # Split r sep"
  using Split_cut [of sep "[]" r] by simp

lemma Split_other:
  assumes "c \<noteq> sep"
  shows "Split (c # r) sep = (c # hd (Split r sep)) # tl (Split r sep)"
proof (cases "sep \<in> set r")
  case True
  then obtain a r' where r: "r = a @ sep # r'" and a: "sep \<notin> set a"
    by (auto dest: split_list_first)
  have "Split ((c # a) @ sep # r') sep = (c # a) # Split r' sep"
    using a assms by (intro Split_cut) simp
  then show ?thesis
    by (simp add: r Split_cut [OF a])
next
  case False
  then show ?thesis
    using assms by (simp add: Split_whole)
qed

lemma pair_Cons:
  "is_pair (c # t) \<longleftrightarrow> c = CHR ''='' \<or> is_pair t"
  "pair_name (c # t) = (if c = CHR ''='' then [] else c # pair_name t)"
  "pair_value (c # t) = (if c = CHR ''='' then t else pair_value t)"
  by (auto simp: is_pair_def pair_name_def pair_value_def)

lemma pair_Nil: "\<not> is_pair []" "pair_name [] = []" "pair_value [] = []"
  by (simp_all add: is_pair_def pair_name_def pair_value_def)


lemma verifier_None_iff:
  "verifier ts K = None \<longleftrightarrow>
     first_failure ts = None \<and> received_hash ts = upper_hex (Sum512 (bytes (wire_input ts @ K)))"
  by (simp add: verifier_def split: option.splits)


lemma received_hash_none:
  "\<not> list_ex is_hash_pair ts \<Longrightarrow> received_hash ts = ''''"
  by (simp add: received_hash_def list_ex_iff filter_empty_conv[THEN iffD2])

lemma received_hash_last:
  "filter is_hash_pair ts \<noteq> [] \<Longrightarrow> received_hash ts = pair_value (last (filter is_hash_pair ts))"
  by (simp add: received_hash_def last_map)

lemma first_failure_at:
  assumes "first_failure pre = None" "is_data_pair t" "QueryUnescape (pair_value t) = Inl e"
  shows "first_failure (pre @ t # post) = Some (DecodeError (pair_name t) e)"
  using assms by (simp add: first_failure_append)

lemma first_failure_exists:
  assumes "t \<in> set ts" "is_data_pair t" "QueryUnescape (pair_value t) = Inl e"
  shows "\<exists>u e'. u \<in> set ts \<and> is_data_pair u \<and> QueryUnescape (pair_value u) = Inl e'
          \<and> first_failure ts = Some (DecodeError (pair_name u) e')"
  using assms
proof (induction ts)
  case Nil
  then show ?case by simp
next
  case (Cons a ts)
  show ?case
  proof (cases "is_data_pair a \<and> isl (QueryUnescape (pair_value a))")
    case True
    then obtain e' where "QueryUnescape (pair_value a) = Inl e'"
      by (auto simp: isl_def)
    with True show ?thesis
      by (intro exI [of _ a] exI [of _ e']) simp
  next
    case False
    then have ff: "first_failure (a # ts) = first_failure ts"
      by (auto split: sum.splits)
    from False Cons.prems have "t \<in> set ts"
      by auto
    from Cons.IH [OF this Cons.prems(2,3)] show ?thesis
      unfolding ff by auto
  qed
qed

lemma upperhex_digits_all:
  "list_all (\<lambda>i. ishex (upperhex ! i) \<and> unhex (upperhex ! i) = word_of_nat i
      \<and> upperhex ! i \<noteq> CHR ''&'') [0..<16]"
  by code_simp

lemma upperhex_digits:
  assumes "i < 16"
  shows "ishex (upperhex ! i)" "unhex (upperhex ! i) = word_of_nat i" "upperhex ! i \<noteq> CHR ''&''"
  using upperhex_digits_all assms by (simp_all add: list_all_iff)

lemma nibbles_join:
  "push_bit 4 (word_of_nat (drop_bit 4 n) :: byte) OR word_of_nat (take_bit 4 n) = word_of_nat n"
  by (rule bit_word_eqI) (auto simp: bit_simps)

lemma of_char_less: "of_char c < (256::nat)"
  using of_char_mod_256 [of c, where 'a = nat] by (metis mod_less_divisor zero_less_numeral)

lemma byte_of_hex_digits:
  "char_of (unat (push_bit 4 (unhex (upperhex ! (of_char c div 16)))
                    OR unhex (upperhex ! (of_char c mod 16)))) = c"
proof -
  let ?n = "of_char c :: nat"
  have hi: "?n div 16 < 16"
    by (rule less_mult_imp_div_less) (simp add: of_char_less)
  have lo: "?n mod 16 < 16" by simp
  have "push_bit 4 (unhex (upperhex ! (?n div 16))) OR unhex (upperhex ! (?n mod 16))
      = (word_of_nat ?n :: byte)"
    using nibbles_join [of ?n]
    by (simp add: upperhex_digits(2) [OF hi] upperhex_digits(2) [OF lo] drop_bit_eq_div take_bit_eq_mod)
  moreover have "unat (word_of_nat ?n :: byte) = ?n"
    using of_char_less [of c] by (simp add: unat_of_nat)
  ultimately show ?thesis
    by simp
qed

lemma unreserved_all:
  "list_all (\<lambda>c. shouldEscape c \<or> (c \<noteq> CHR ''%'' \<and> c \<noteq> CHR ''+'' \<and> c \<noteq> CHR ''&'')) Enum.enum"
  by code_simp

lemma hex_digits:
  "ishex (upperhex ! (of_char c div 16))" "ishex (upperhex ! (of_char c mod 16))"
  "upperhex ! (of_char c div 16) \<noteq> CHR ''&''" "upperhex ! (of_char c mod 16) \<noteq> CHR ''&''"
proof -
  have hi: "(of_char c :: nat) div 16 < 16"
    by (rule less_mult_imp_div_less) (simp add: of_char_less)
  have lo: "(of_char c :: nat) mod 16 < 16" by simp
  show "ishex (upperhex ! (of_char c div 16))" "ishex (upperhex ! (of_char c mod 16))"
    "upperhex ! (of_char c div 16) \<noteq> CHR ''&''" "upperhex ! (of_char c mod 16) \<noteq> CHR ''&''"
    by (rule upperhex_digits [OF hi] upperhex_digits [OF lo])+
qed

lemma unreserved:
  "\<not> shouldEscape c \<Longrightarrow> c \<noteq> CHR ''%'' \<and> c \<noteq> CHR ''+'' \<and> c \<noteq> CHR ''&''"
  using unreserved_all by (auto simp: list_all_iff enum_UNIV)

lemma unescape_check_escape: "unescape_check (escape_byte c @ s) = unescape_check s"
  using unreserved [of c] by (simp add: escape_byte_def hex_digits)

lemma unescape_write_escape: "unescape_write (escape_byte c @ s) = c # unescape_write s"
  using unreserved [of c] by (simp add: escape_byte_def hex_digits byte_of_hex_digits)

lemma unescape_check_QueryEscape: "unescape_check (QueryEscape s @ t) = unescape_check t"
  by (induction s) (simp_all add: QueryEscape_def unescape_check_escape del: unescape_check.simps)

lemma unescape_write_QueryEscape: "unescape_write (QueryEscape s @ t) = s @ unescape_write t"
  by (induction s) (simp_all add: QueryEscape_def unescape_write_escape del: unescape_write.simps)

lemma unescape_write_id:
  "CHR ''%'' \<notin> set s \<Longrightarrow> CHR ''+'' \<notin> set s \<Longrightarrow> unescape_write s = s"
  by (induction s) auto

lemma QueryUnescape_QueryEscape: "QueryUnescape (QueryEscape s) = Inr s"
proof -
  have c: "unescape_check (QueryEscape s) = None"
    using unescape_check_QueryEscape [of s "[]"] by simp
  have w: "unescape_write (QueryEscape s) = s"
    using unescape_write_QueryEscape [of s "[]"] by simp
  show ?thesis
    using unescape_write_id [of "QueryEscape s"] by (auto simp: QueryUnescape_def c w)
qed

lemma amp_escape_byte: "CHR ''&'' \<notin> set (escape_byte c)"
  using unreserved [of c] hex_digits(3,4) [of c] by (auto simp: escape_byte_def)

lemma amp_QueryEscape: "CHR ''&'' \<notin> set (QueryEscape s)"
  by (induction s) (simp_all add: QueryEscape_def amp_escape_byte)

lemma Split_Join:
  "ts \<noteq> [] \<Longrightarrow> \<forall>t\<in>set ts. CHR ''&'' \<notin> set t \<Longrightarrow> Split (Join ts ''&'') CHR ''&'' = ts"
proof (induction ts "''&''" rule: Join.induct)
  case 1
  then show ?case by simp
next
  case (2 a)
  then show ?case by (simp add: Split_whole)
next
  case (3 a b bs)
  then show ?case by (simp add: Split_cut)
qed

lemma Get_to_Values:
  "Get (to_Values F) k = (case fmlookup F k of None \<Rightarrow> '''' | Some v \<Rightarrow> v)"
  by (simp add: Get_def to_Values_def split: option.splits)

lemma sorted_list_of_fset_ffilter:
  "sorted_list_of_fset (ffilter P A) = filter P (sorted_list_of_fset A)"
proof -
  have "sort (filter P (sorted_list_of_fset A)) = sorted_list_of_fset (ffilter P A)"
    by (rule sort_filter_enumeration) (simp_all add: sorted_list_of_fset.rep_eq)
  moreover have "sorted (filter P (sorted_list_of_fset A))"
    by (simp add: sorted_list_of_fset.rep_eq sorted_wrt_filter)
  ultimately show ?thesis
    by (simp add: sort_key_id_if_sorted)
qed

lemma signer_input_to_Values:
  "signer_input (to_Values F) K
     = concat (map (Get (to_Values F))
         (filter (\<lambda>k. ToLower k \<noteq> ''hash'') (sorted_list_of_fset (fmdom F)))) @ K"
  by (simp add: signer_input_def signed_names_def sorted_list_of_fset_ffilter to_Values_def)

lemma amp_GenerateHash: "CHR ''&'' \<notin> set (GenerateHash V K)"
  using set_upper_hex [of "Sum512 (bytes (signer_input V K))"]
  by (auto simp: GenerateHash_spec)

lemma shouldEscape_special: "shouldEscape CHR ''=''" "shouldEscape CHR ''%''" "shouldEscape CHR ''+''"
  by code_simp+

lemma upperhex_not_eq_all: "list_all (\<lambda>i. upperhex ! i \<noteq> CHR ''='') [0..<16]"
  by code_simp

lemma upperhex_not_eq: "i < 16 \<Longrightarrow> upperhex ! i \<noteq> CHR ''=''"
  using upperhex_not_eq_all by (simp add: list_all_iff)

lemma eq_escape_byte: "CHR ''='' \<notin> set (escape_byte c)"
proof -
  have hi: "(of_char c :: nat) div 16 < 16"
    by (rule less_mult_imp_div_less) (simp add: of_char_less)
  have lo: "(of_char c :: nat) mod 16 < 16" by simp
  show ?thesis
    using upperhex_not_eq [OF hi] upperhex_not_eq [OF lo] shouldEscape_special(1)
    by (auto simp: escape_byte_def)
qed

lemma eq_QueryEscape: "CHR ''='' \<notin> set (QueryEscape s)"
  by (induction s) (simp_all add: QueryEscape_def eq_escape_byte)

lemma escape_byte_plain:
  "CHR ''%'' \<notin> set (escape_byte c) \<Longrightarrow> CHR ''+'' \<notin> set (escape_byte c) \<Longrightarrow> escape_byte c = [c]"
  by (auto simp: escape_byte_def split: if_splits)

lemma QueryEscape_plain:
  "CHR ''%'' \<notin> set (QueryEscape s) \<Longrightarrow> CHR ''+'' \<notin> set (QueryEscape s) \<Longrightarrow> QueryEscape s = s"
proof (induction s)
  case Nil
  show ?case by (simp add: QueryEscape_def)
next
  case (Cons c s)
  have q: "QueryEscape (c # s) = escape_byte c @ QueryEscape s"
    by (simp add: QueryEscape_def)
  from Cons.prems have "CHR ''%'' \<notin> set (escape_byte c)" "CHR ''+'' \<notin> set (escape_byte c)"
    and rest: "CHR ''%'' \<notin> set (QueryEscape s)" "CHR ''+'' \<notin> set (QueryEscape s)"
    unfolding q by simp_all
  then have "escape_byte c = [c]"
    by (intro escape_byte_plain)
  moreover have "QueryEscape s = s"
    using rest by (rule Cons.IH)
  ultimately show ?case
    unfolding q by simp
qed

lemma QueryEscape_id: "\<forall>c\<in>set s. escape_byte c = [c] \<Longrightarrow> QueryEscape s = s"
  by (induction s) (simp_all add: QueryEscape_def)

lemma shouldEscape_space: "shouldEscape CHR '' ''"
  by code_simp

lemma escape_byte_unreserved: "\<not> shouldEscape c \<Longrightarrow> escape_byte c = [c]"
  using shouldEscape_space by (auto simp: escape_byte_def)

lemma hash_letters_all:
  "list_all (\<lambda>c. lower_byte c \<notin> set ''hash'' \<or> \<not> shouldEscape c) Enum.enum"
  by code_simp

lemma hash_letters: "lower_byte c \<in> set ''hash'' \<Longrightarrow> escape_byte c = [c]"
proof -
  assume "lower_byte c \<in> set ''hash''"
  moreover have "lower_byte c \<notin> set ''hash'' \<or> \<not> shouldEscape c"
    using hash_letters_all unfolding list_all_iff enum_UNIV by blast
  ultimately show ?thesis
    by (blast intro: escape_byte_unreserved)
qed

lemma ToLower_hash_letters: "ToLower s = ''hash'' \<Longrightarrow> \<forall>c\<in>set s. lower_byte c \<in> set ''hash''"
proof
  fix c assume h: "ToLower s = ''hash''" and c: "c \<in> set s"
  from c have "lower_byte c \<in> set (ToLower s)"
    by (simp add: ToLower_def)
  then show "lower_byte c \<in> set ''hash''"
    by (simp only: h)
qed

lemma lower_special: "lower_byte CHR ''%'' = CHR ''%''" "lower_byte CHR ''+'' = CHR ''+''"
  by code_simp+

lemma ToLower_QueryEscape_hash:
  "ToLower (QueryEscape k) = ''hash'' \<longleftrightarrow> ToLower k = ''hash''"
proof
  assume h: "ToLower (QueryEscape k) = ''hash''"
  have "CHR ''%'' \<notin> set (QueryEscape k)" "CHR ''+'' \<notin> set (QueryEscape k)"
    using ToLower_hash_letters [OF h] lower_special by auto
  then have "QueryEscape k = k"
    by (rule QueryEscape_plain)
  with h show "ToLower k = ''hash''"
    by simp
next
  assume h: "ToLower k = ''hash''"
  have "\<forall>c\<in>set k. escape_byte c = [c]"
    using ToLower_hash_letters [OF h] hash_letters by blast
  then have "QueryEscape k = k"
    by (rule QueryEscape_id)
  with h show "ToLower (QueryEscape k) = ''hash''"
    by simp
qed

lemma hex_plain_all: "list_all (\<lambda>c. \<not> shouldEscape c) ''0123456789ABCDEF''"
  by code_simp

lemma hex_plain: "c \<in> set ''0123456789ABCDEF'' \<Longrightarrow> \<not> shouldEscape c"
  using hex_plain_all unfolding list_all_iff by (rule bspec)

lemma set_GenerateHash: "set (GenerateHash V K) \<subseteq> set ''0123456789ABCDEF''"
  unfolding GenerateHash_spec by (rule set_upper_hex)

lemma QueryEscape_GenerateHash: "QueryEscape (GenerateHash V K) = GenerateHash V K"
proof (rule QueryEscape_id, rule ballI)
  fix c assume "c \<in> set (GenerateHash V K)"
  with set_GenerateHash have "c \<in> set ''0123456789ABCDEF''"
    by (rule subsetD)
  then have "\<not> shouldEscape c"
    by (rule hex_plain)
  then show "escape_byte c = [c]"
    by (rule escape_byte_unreserved)
qed

lemma form_pair_parts:
  "is_pair (form_pair k v)" "pair_name (form_pair k v) = QueryEscape k"
  "pair_value (form_pair k v) = QueryEscape v" "CHR ''&'' \<notin> set (form_pair k v)"
proof -
  have a: "\<And>x. x \<in> set (QueryEscape k) \<Longrightarrow> x \<noteq> CHR ''=''"
    using eq_QueryEscape [of k] by auto
  show "is_pair (form_pair k v)"
    by (simp add: is_pair_def form_pair_def)
  show "pair_name (form_pair k v) = QueryEscape k"
    using a by (simp add: pair_name_def form_pair_def)
  show "pair_value (form_pair k v) = QueryEscape v"
    using a by (simp add: pair_value_def form_pair_def)
  show "CHR ''&'' \<notin> set (form_pair k v)"
    by (simp add: form_pair_def amp_QueryEscape)
qed

lemma form_pair_kind:
  "is_hash_pair (form_pair k v) \<longleftrightarrow> ToLower k = ''hash''"
  "is_data_pair (form_pair k v) \<longleftrightarrow> ToLower k \<noteq> ''hash''"
  by (simp_all add: is_hash_pair_def is_data_pair_def form_pair_parts ToLower_QueryEscape_hash)

lemma form_pair_decoded: "decoded_value (form_pair k v) = v"
  by (simp add: decoded_value_def form_pair_parts QueryUnescape_QueryEscape)

lemma first_failure_form: "first_failure (map (\<lambda>(k, v). form_pair k v) kvs) = None"
  unfolding first_failure_None_iff
  by (auto simp: form_pair_parts QueryUnescape_QueryEscape)

lemma wire_input_form:
  "wire_input (map (\<lambda>(k, v). form_pair k v) kvs)
     = concat (map snd (filter (\<lambda>(k, v). ToLower k \<noteq> ''hash'') kvs))"
  by (induction kvs) (auto simp: wire_input_def form_pair_kind form_pair_decoded)

lemma received_hash_form:
  "received_hash (map (\<lambda>(k, v). form_pair k v) (kvs @ (h, sig) # rest)) = QueryEscape sig"
  if "ToLower h = ''hash''" "\<forall>(k, v)\<in>set rest. ToLower k \<noteq> ''hash''"
proof -
  have "filter is_hash_pair (map (\<lambda>(k, v). form_pair k v) rest) = []"
    using that(2) by (auto simp: filter_empty_conv form_pair_kind)
  then show ?thesis
    using that(1) by (simp add: received_hash_def form_pair_kind form_pair_parts)
qed

lemma encode_keys_single:
  assumes "\<forall>k\<in>set ks. \<exists>x. fmlookup v k = Some [x]"
  shows "encode_keys v buf ks =
    (if ks = [] then buf
     else (if buf \<noteq> [] then buf @ ''&'' else buf) @ Join (map (\<lambda>k. form_pair k (Get v k)) ks) ''&'')"
  using assms
proof (induction ks arbitrary: buf)
  case Nil
  show ?case by simp
next
  case (Cons k ks)
  then obtain x where x: "fmlookup v k = Some [x]"
    by auto
  let ?b = "(if buf \<noteq> [] then buf @ ''&'' else buf) @ form_pair k x"
  have g: "Get v k = x"
    by (simp add: Get_def x)
  have step: "encode_keys v buf (k # ks) = encode_keys v ?b ks"
    by (simp add: x form_pair_def)
  have ne: "?b \<noteq> []"
    by (simp add: form_pair_def)
  show ?case
  proof (cases ks)
    case Nil
    then show ?thesis
      unfolding step by (simp add: g)
  next
    case (Cons k' ks')
    have "encode_keys v ?b ks = (?b @ ''&'') @ Join (map (\<lambda>k. form_pair k (Get v k)) ks) ''&''"
      using Cons.IH [of ?b] Cons.prems ne Cons by (simp del: encode_keys.simps)
    then show ?thesis
      unfolding step by (simp add: g Cons)
  qed
qed

lemma values_of_pairs:
  "concat (map snd (filter (\<lambda>(k, v). P k) (map (\<lambda>k. (k, g k)) ks)))
     = concat (map g (filter P ks))"
  by (induction ks) simp_all

lemma char_le_lower_all: "list_all (\<lambda>c. c \<le> lower_byte c) Enum.enum"
  by code_simp

lemma char_le_lower: "c \<le> lower_byte c"
  using char_le_lower_all by (simp add: list_all_iff enum_UNIV)

lemma le_ToLower: "k \<le> ToLower k"
proof (induction k)
  case Nil
  show ?case by (simp add: ToLower_def)
next
  case (Cons c k)
  then show ?case
    using char_le_lower [of c] by (auto simp: ToLower_def)
qed

lemma sorted_split:
  assumes "sorted xs" "distinct xs" "x \<in> set xs"
  shows "\<exists>pre post. xs = pre @ x # post \<and> (\<forall>y\<in>set post. x < y)"
proof -
  from assms(3) obtain pre post where xs: "xs = pre @ x # post"
    by (auto dest: split_list)
  have "\<forall>y\<in>set post. x \<le> y"
    using assms(1) unfolding xs by (simp add: sorted_append)
  moreover have "x \<notin> set post"
    using assms(2) unfolding xs by simp
  ultimately have "\<forall>y\<in>set post. x < y"
    by (metis order_le_imp_less_or_eq)
  with xs show ?thesis
    by blast
qed

lemma after_hash:
  assumes "''hash'' < y"
  shows "ToLower y \<noteq> ''hash''"
proof
  assume "ToLower y = ''hash''"
  then have "y \<le> ''hash''"
    using le_ToLower [of y] by simp
  with assms show False
    by simp
qed

lemma round_trip_tokens:
  assumes kvs: "kvs = pre @ (h, sig) # rest"
    and h: "ToLower h = ''hash''"
    and rest: "\<forall>(k, v)\<in>set rest. ToLower k \<noteq> ''hash''"
    and plain: "QueryEscape sig = sig"
    and sig: "sig = upper_hex (Sum512 (bytes
        (concat (map snd (filter (\<lambda>(k, v). ToLower k \<noteq> ''hash'') kvs)) @ K)))"
  shows "ValidateHash (Join (map (\<lambda>(k, v). form_pair k v) kvs) ''&'') K = None"
proof -
  let ?ts = "map (\<lambda>(k, v). form_pair k v) kvs"
  have "?ts \<noteq> []"
    by (simp add: kvs)
  moreover have "\<forall>t\<in>set ?ts. CHR ''&'' \<notin> set t"
    by (auto simp: form_pair_parts)
  ultimately have split: "Split (Join ?ts ''&'') CHR ''&'' = ?ts"
    by (rule Split_Join)
  have "received_hash ?ts = sig"
    unfolding kvs using received_hash_form [OF h rest, of pre sig] plain by simp
  then have "received_hash ?ts = upper_hex (Sum512 (bytes (wire_input ?ts @ K)))"
    using sig by (simp only: wire_input_form)
  then show ?thesis
    unfolding ValidateHash_spec split verifier_None_iff
    using first_failure_form [of kvs] by simp
qed

lemma QueryEscape_hash: "QueryEscape ''hash'' = ''hash''"
  using ToLower_QueryEscape_hash [of "''hash''"] hash_lower
    QueryEscape_id [of "''hash''"] hash_letters ToLower_hash_letters [OF hash_lower]
  by blast

lemma round_trip_serialize:
  "ValidateHash (serialize F (GenerateHash (to_Values F) K)) K = None"
proof -
  let ?sig = "GenerateHash (to_Values F) K"
  let ?ks = "sorted_list_of_fset (fmdom F)"
  let ?g = "\<lambda>k. (k, Get (to_Values F) k)"
  let ?kvs = "map ?g ?ks @ (''hash'', ?sig) # []"
  have hp: "''hash='' @ ?sig = form_pair ''hash'' ?sig"
    by (simp add: form_pair_def QueryEscape_hash QueryEscape_GenerateHash)
  have ser: "serialize F ?sig = Join (map (\<lambda>(k, v). form_pair k v) ?kvs) ''&''"
    unfolding serialize_def hp by (simp add: comp_def)
  have "concat (map snd (filter (\<lambda>(k, v). ToLower k \<noteq> ''hash'') ?kvs))
      = concat (map (Get (to_Values F)) (filter (\<lambda>k. ToLower k \<noteq> ''hash'') ?ks))"
    using values_of_pairs [of "\<lambda>k. ToLower k \<noteq> ''hash''" "Get (to_Values F)" ?ks]
    by (simp add: hash_lower)
  then have sig: "?sig = upper_hex (Sum512 (bytes
      (concat (map snd (filter (\<lambda>(k, v). ToLower k \<noteq> ''hash'') ?kvs)) @ K)))"
    by (simp only: GenerateHash_spec signer_input_to_Values)
  show ?thesis
    unfolding ser
    by (rule round_trip_tokens [OF refl hash_lower _ QueryEscape_GenerateHash sig]) simp
qed

lemma round_trip_Encode:
  "ValidateHash (Encode (Values_Set (to_Values F) ''hash'' (GenerateHash (to_Values F) K))) K = None"
proof -
  let ?sig = "GenerateHash (to_Values F) K"
  let ?V = "Values_Set (to_Values F) ''hash'' ?sig"
  let ?ks = "sorted_list_of_fset (fmdom ?V)"
  let ?g = "\<lambda>k. (k, Get ?V k)"
  have dom: "fmdom ?V = finsert ''hash'' (fmdom F)"
    by (simp add: Values_Set_def to_Values_def)
  have single: "\<forall>k\<in>set ?ks. \<exists>x. fmlookup ?V k = Some [x]"
    by (auto simp: Values_Set_def to_Values_def fmlookup_dom_iff)
  have ks_ne: "?ks \<noteq> []"
    unfolding dom by (metis empty_iff finsertI1 list.set(1) sorted_list_of_fset_simps(1))
  have sorted: "sorted ?ks" "distinct ?ks"
    by (simp_all add: sorted_list_of_fset.rep_eq)
  have srt: "sort ?ks = ?ks"
    using sorted(1) by (simp add: sort_key_id_if_sorted)
  have "fmdom ?V \<noteq> {||}"
    unfolding dom by simp
  then have "Encode ?V = encode_keys ?V [] ?ks"
    by (simp only: Encode_def srt if_False)
  then have enc: "Encode ?V = Join (map (\<lambda>k. form_pair k (Get ?V k)) ?ks) ''&''"
    using encode_keys_single [OF single, of "[]"] ks_ne by simp
  have "''hash'' \<in> set ?ks"
    unfolding dom by simp
  from sorted_split [OF sorted this] obtain pre post where
    ks: "?ks = pre @ ''hash'' # post" and post: "\<forall>y\<in>set post. ''hash'' < y"
    by blast
  have gh: "Get ?V ''hash'' = ?sig"
    by (simp add: Get_def Values_Set_def)
  have kvs: "map ?g ?ks = map ?g pre @ (''hash'', ?sig) # map ?g post"
    unfolding ks by (simp add: gh)
  have rest: "\<forall>(k, v)\<in>set (map ?g post). ToLower k \<noteq> ''hash''"
    using post by (auto dest: after_hash)
  have other: "Get ?V k = Get (to_Values F) k" if "ToLower k \<noteq> ''hash''" for k
    using that hash_lower by (auto simp: Get_def Values_Set_def)
  have names: "filter (\<lambda>k. ToLower k \<noteq> ''hash'') ?ks
      = filter (\<lambda>k. ToLower k \<noteq> ''hash'') (sorted_list_of_fset (fmdom F))"
  proof -
    have "ffilter (\<lambda>k. ToLower k \<noteq> ''hash'') (finsert ''hash'' (fmdom F))
        = ffilter (\<lambda>k. ToLower k \<noteq> ''hash'') (fmdom F)"
      using hash_lower by auto
    then show ?thesis
      unfolding dom by (simp only: sorted_list_of_fset_ffilter [symmetric])
  qed
  have "map (Get ?V) (filter (\<lambda>k. ToLower k \<noteq> ''hash'') ?ks)
      = map (Get (to_Values F)) (filter (\<lambda>k. ToLower k \<noteq> ''hash'') ?ks)"
    by (rule map_cong [OF refl]) (simp add: other)
  then have "concat (map snd (filter (\<lambda>(k, v). ToLower k \<noteq> ''hash'') (map ?g ?ks)))
      = concat (map (Get (to_Values F))
          (filter (\<lambda>k. ToLower k \<noteq> ''hash'') (sorted_list_of_fset (fmdom F))))"
    by (simp only: values_of_pairs names)
  then have sig: "?sig = upper_hex (Sum512 (bytes
      (concat (map snd (filter (\<lambda>(k, v). ToLower k \<noteq> ''hash'') (map ?g ?ks))) @ K)))"
    by (simp only: GenerateHash_spec signer_input_to_Values)
  have "Encode ?V = Join (map (\<lambda>(k, v). form_pair k v) (map ?g ?ks)) ''&''"
    unfolding enc by (simp add: comp_def)
  then show ?thesis
    using round_trip_tokens [OF kvs hash_lower rest QueryEscape_GenerateHash sig] by simp
qed

lemma Get_first_value: "Get v k = first_value v k"
  by (simp add: Get_def first_value_def split: option.splits list.splits)

lemma signed_names_single:
  "ToLower k \<noteq> ''hash'' \<Longrightarrow> signed_names (fmupd k vs fmempty) = [k]"
  by (simp add: signed_names_def sorted_list_of_fset.rep_eq)

lemma signed_names_member:
  "ToLower k \<noteq> ''hash'' \<Longrightarrow> k \<in> set (signed_names (fmupd k vs V))"
  by (simp add: signed_names_set)

lemma signer_input_fmupd:
  "signer_input (fmupd k (v # vs) V) K
     = concat (map (\<lambda>n. if n = k then v else first_value V n) (signed_names (fmupd k (v # vs) V))) @ K"
proof -
  have "Get (fmupd k (v # vs) V) = (\<lambda>n. if n = k then v else first_value V n)"
    by (rule ext) (simp add: Get_def first_value_def split: option.splits list.splits)
  then show ?thesis
    by (simp only: signer_input_def)
qed
text \<open>
  Two texts: the field set with the one name \<open>a=%\<close>, as the round trip writes it, and a
  signed form as \<open>Encode\<close> writes it, the name \<open>hash\<close> in its place among the names.
\<close>

lemma serialize_example:
  "serialize (fmap_of_list [(''a=%'', ''v'')]) sig = ''a%3D%25=v&hash='' @ sig"
proof -
  have "sorted_list_of_fset (fmdom (fmap_of_list [(''a=%'', ''v'')])) = [''a=%'']"
    by code_simp
  moreover have "form_pair ''a=%'' (Get (to_Values (fmap_of_list [(''a=%'', ''v'')])) ''a=%'')
      = ''a%3D%25=v''"
    by code_simp
  ultimately show ?thesis
    by (simp add: serialize_def)
qed

lemma Encode_example:
  "Encode (Values_Set (to_Values (fmap_of_list [(''id'', ''7'')])) ''hash'' ''AB'')
     = ''hash=AB&id=7''"
  by code_simp

section \<open>The claims\<close>

text \<open>
  C1. For every \<open>url.Values\<close> and secret, \<open>GenerateHash\<close> returns the upper-case
  hexadecimal SHA-512 digest of the values of the fields, taken in ascending byte-wise
  order of their names and leaving out every name that is \<open>hash\<close> in any letter case,
  followed by the secret. The list \<open>signed_names\<close> is that list of names: it is strictly
  ascending and holds exactly the names of the map other than \<open>hash\<close>. In particular the
  fields \<open>a = 1\<close>, \<open>b = 2\<close> with the secret \<open>key\<close> give the digest of \<open>12key\<close>.
\<close>

theorem GenerateHash_sorted_values:
  "GenerateHash values key = upper_hex (Sum512 (bytes (signer_input values key)))
   \<and> signer_input values key = concat (map (Get values) (signed_names values)) @ key
   \<and> sorted_wrt (<) (signed_names values)
   \<and> set (signed_names values) = {k. k |\<in>| fmdom values \<and> ToLower k \<noteq> ''hash''}
   \<and> GenerateHash (fmap_of_list [(''a'', [''1'']), (''b'', [''2''])]) ''key''
       = upper_hex (Sum512 (bytes ''12key''))"
  by (simp only: GenerateHash_spec signed_names_sorted signed_names_set signer_input_ab
      signer_input_def [of "values" "key"] simp_thms)

text \<open>
  C4. A field named \<open>hash\<close>, in any letter case, never influences the signature:
  adding it to a field set (or replacing it there), with any value, leaves the result
  of \<open>GenerateHash\<close> unchanged.
\<close>

theorem GenerateHash_ignores_hash_field:
  "ToLower h = ''hash'' \<Longrightarrow> GenerateHash (fmupd h vs F) K = GenerateHash F K"
  by (simp add: GenerateHash_spec signer_input_fmupd_hash)

theorem GenerateHash_ignores_hash_field_witness:
  "ToLower ''HaSh'' = ''hash''
   \<and> GenerateHash (fmupd ''HaSh'' [''some-existing-hash'']
        (fmap_of_list [(''id'', [''12345'']), (''amount'', [''10.00''])])) ''key''
     = GenerateHash (fmap_of_list [(''id'', [''12345'']), (''amount'', [''10.00''])]) ''key''"
proof -
  have h: "ToLower ''HaSh'' = ''hash''" by code_simp
  show ?thesis
    using h GenerateHash_ignores_hash_field [OF h] by simp
qed

text \<open>
  C8. \<open>GenerateHash\<close> has no error result, and for every field set and every secret it
  returns exactly 128 characters, each of them one of \<open>0-9\<close>, \<open>A-F\<close>.
\<close>

theorem GenerateHash_format:
  "length (GenerateHash values key) = 128
   \<and> set (GenerateHash values key) \<subseteq> set ''0123456789ABCDEF''"
  using set_upper_hex [of "Sum512 (bytes (signer_input values key))"]
  by (simp add: GenerateHash_spec length_upper_hex length_Sum512)

text \<open>
  C10. When a name of the \<open>url.Values\<close> has several values, the first value of the
  list, and only that one, enters the hash input. The other values of the list can be
  dropped without changing the signature. For a name other than \<open>hash\<close>, the name is
  among the signed names and the hash input has the first value \<open>v\<close> at the place of that
  name, and the first values of the other names at theirs; when it is the only name, the
  signature is the digest of \<open>v\<close> followed by the secret.
\<close>

theorem GenerateHash_first_value_only:
  "GenerateHash (fmupd k (v # vs) values) key = GenerateHash (fmupd k [v] values) key
   \<and> (ToLower k \<noteq> ''hash'' \<longrightarrow>
        k \<in> set (signed_names (fmupd k (v # vs) values))
        \<and> GenerateHash (fmupd k (v # vs) values) key
            = upper_hex (Sum512 (bytes
                (concat (map (\<lambda>n. if n = k then v else first_value values n)
                          (signed_names (fmupd k (v # vs) values))) @ key)))
        \<and> GenerateHash (fmupd k (v # vs) fmempty) key = upper_hex (Sum512 (bytes (v @ key))))"
proof (intro conjI impI)
  have "signed_names (fmupd k (v # vs) values) = signed_names (fmupd k [v] values)"
    by (simp add: signed_names_def)
  then have "signer_input (fmupd k (v # vs) values) key = signer_input (fmupd k [v] values) key"
    by (simp add: signer_input_def Get_first [of k v vs "values"])
  then show "GenerateHash (fmupd k (v # vs) values) key = GenerateHash (fmupd k [v] values) key"
    by (simp add: GenerateHash_spec)
next
  assume "ToLower k \<noteq> ''hash''"
  then show "k \<in> set (signed_names (fmupd k (v # vs) values))"
    by (rule signed_names_member)
next
  show "GenerateHash (fmupd k (v # vs) values) key
      = upper_hex (Sum512 (bytes
          (concat (map (\<lambda>n. if n = k then v else first_value values n)
                    (signed_names (fmupd k (v # vs) values))) @ key)))"
    by (simp only: GenerateHash_spec signer_input_fmupd)
next
  assume "ToLower k \<noteq> ''hash''"
  then have "signed_names (fmupd k (v # vs) fmempty) = [k]"
    by (rule signed_names_single)
  then show "GenerateHash (fmupd k (v # vs) fmempty) key = upper_hex (Sum512 (bytes (v @ key)))"
    by (simp add: GenerateHash_spec signer_input_fmupd)
qed

theorem GenerateHash_first_value_only_witness:
  "ToLower ''id'' \<noteq> ''hash''
   \<and> GenerateHash (fmupd ''id'' [''1'', ''2'', ''3''] fmempty) ''key''
       = upper_hex (Sum512 (bytes ''1key''))
   \<and> GenerateHash (fmupd ''id'' [''1'', ''2'', ''3''] fmempty) ''key''
       = GenerateHash (fmupd ''id'' [''1''] fmempty) ''key''"
proof -
  have n: "ToLower ''id'' \<noteq> ''hash''"
    by code_simp
  note t = GenerateHash_first_value_only [of "''id''" "''1''" "[''2'', ''3'']" fmempty "''key''"]
  from t n have "GenerateHash (fmupd ''id'' [''1'', ''2'', ''3''] fmempty) ''key''
      = upper_hex (Sum512 (bytes (''1'' @ ''key'')))"
    by blast
  then have d: "GenerateHash (fmupd ''id'' [''1'', ''2'', ''3''] fmempty) ''key''
      = upper_hex (Sum512 (bytes ''1key''))"
    by simp
  from t have a: "GenerateHash (fmupd ''id'' [''1'', ''2'', ''3''] fmempty) ''key''
      = GenerateHash (fmupd ''id'' [''1''] fmempty) ''key''"
    by blast
  show ?thesis
    by (intro conjI n d a)
qed

text \<open>
  C2. For every text \<open>x=5&y=6&hash=H\<close> (\<open>H\<close> the value of the third pair, so without
  \<open>&\<close>) and the secret \<open>s\<close>, \<open>ValidateHash\<close> succeeds exactly when \<open>H\<close> is the upper-case
  hexadecimal SHA-512 digest of \<open>56s\<close>. The values are taken in the order of the text and
  not in the order of the names: for \<open>y=6&x=5&hash=H\<close> the digest is that of \<open>65s\<close>. In
  general, when every data pair decodes, \<open>ValidateHash\<close> succeeds exactly when the
  received signature is the digest of the decoded values in the order of the text
  followed by the secret.
\<close>

theorem ValidateHash_wire_order:
  "(CHR ''&'' \<notin> set H \<longrightarrow>
      (ValidateHash (''x=5&y=6&hash='' @ H) ''s'' = None
        \<longleftrightarrow> H = upper_hex (Sum512 (bytes ''56s''))))
   \<and> (CHR ''&'' \<notin> set H \<longrightarrow>
      (ValidateHash (''y=6&x=5&hash='' @ H) ''s'' = None
        \<longleftrightarrow> H = upper_hex (Sum512 (bytes ''65s''))))
   \<and> (first_failure (Split raw CHR ''&'') = None \<longrightarrow>
      (ValidateHash raw K = None
        \<longleftrightarrow> received_hash (Split raw CHR ''&'')
            = upper_hex (Sum512 (bytes (wire_input (Split raw CHR ''&'') @ K)))))"
proof (intro conjI impI)
  assume amp: "CHR ''&'' \<notin> set H"
  have split: "Split (''x=5&y=6&hash='' @ H) CHR ''&'' = [''x=5'', ''y=6'', ''hash='' @ H]"
    using amp by (simp add: Split_sep Split_other Split_whole)
  have "first_failure [''x=5'', ''y=6'', ''hash='' @ H] = None"
    by (simp add: is_data_pair_def pair_Cons x_lower hash_lower unescape_digits)
  moreover have "wire_input [''x=5'', ''y=6'', ''hash='' @ H] = ''56''"
    by (simp add: wire_input_def decoded_value_def is_data_pair_def pair_Cons x_lower
        hash_lower unescape_digits)
  moreover have "received_hash [''x=5'', ''y=6'', ''hash='' @ H] = H"
    by (simp add: received_hash_def is_hash_pair_def pair_Cons x_lower hash_lower)
  ultimately show "ValidateHash (''x=5&y=6&hash='' @ H) ''s'' = None
      \<longleftrightarrow> H = upper_hex (Sum512 (bytes ''56s''))"
    unfolding ValidateHash_spec split verifier_None_iff by auto
next
  assume amp: "CHR ''&'' \<notin> set H"
  have split: "Split (''y=6&x=5&hash='' @ H) CHR ''&'' = [''y=6'', ''x=5'', ''hash='' @ H]"
    using amp by (simp add: Split_sep Split_other Split_whole)
  have "first_failure [''y=6'', ''x=5'', ''hash='' @ H] = None"
    by (simp add: is_data_pair_def pair_Cons x_lower hash_lower unescape_digits)
  moreover have "wire_input [''y=6'', ''x=5'', ''hash='' @ H] = ''65''"
    by (simp add: wire_input_def decoded_value_def is_data_pair_def pair_Cons x_lower
        hash_lower unescape_digits)
  moreover have "received_hash [''y=6'', ''x=5'', ''hash='' @ H] = H"
    by (simp add: received_hash_def is_hash_pair_def pair_Cons x_lower hash_lower)
  ultimately show "ValidateHash (''y=6&x=5&hash='' @ H) ''s'' = None
      \<longleftrightarrow> H = upper_hex (Sum512 (bytes ''65s''))"
    unfolding ValidateHash_spec split verifier_None_iff by auto
next
  assume "first_failure (Split raw CHR ''&'') = None"
  then show "ValidateHash raw K = None
      \<longleftrightarrow> received_hash (Split raw CHR ''&'')
          = upper_hex (Sum512 (bytes (wire_input (Split raw CHR ''&'') @ K)))"
    by (simp add: ValidateHash_spec verifier_None_iff)
qed

theorem ValidateHash_wire_order_witness:
  "CHR ''&'' \<notin> set ''1B0F3B5FFDC7EA4475A533240AF4196B75ECD59C8DB7CE9A164F0E54D6E39E5CD3F3FDE1ED2B71BA47249FEABC855CF574C9CB45ECE9EB899C143984C3ECF0D8''
   \<and> ValidateHash
     ''x=5&y=6&hash=1B0F3B5FFDC7EA4475A533240AF4196B75ECD59C8DB7CE9A164F0E54D6E39E5CD3F3FDE1ED2B71BA47249FEABC855CF574C9CB45ECE9EB899C143984C3ECF0D8''
     ''s'' = None"
proof -
  let ?H = "''1B0F3B5FFDC7EA4475A533240AF4196B75ECD59C8DB7CE9A164F0E54D6E39E5CD3F3FDE1ED2B71BA47249FEABC855CF574C9CB45ECE9EB899C143984C3ECF0D8''"
  have amp: "CHR ''&'' \<notin> set ?H"
    by simp
  have "ValidateHash (''x=5&y=6&hash='' @ ?H) ''s'' = None"
    using ValidateHash_wire_order [of ?H, THEN conjunct1, rule_format, OF amp]
    unfolding digest_56s by simp
  with amp show ?thesis
    by simp
qed

text \<open>
  C3. For every field set and every secret: signing the field set with
  \<open>GenerateHash\<close>, writing it with the signature in the standard form encoding, and
  giving that text to \<open>ValidateHash\<close> with the same secret, succeeds. This holds for the
  text that the client sends (\<open>Set("hash", sig)\<close>, then \<open>Encode\<close>, where \<open>hash\<close> stands in
  its place among the sorted names), and for the text with the pairs of the field set in
  ascending order of the names and \<open>hash=<sig>\<close> last.
\<close>

theorem round_trip:
  "ValidateHash
     (Encode (Values_Set (to_Values F) ''hash'' (GenerateHash (to_Values F) K))) K = None
   \<and> ValidateHash (serialize F (GenerateHash (to_Values F) K)) K = None"
  using round_trip_Encode [of F K] round_trip_serialize [of F K] by (rule conjI)

theorem round_trip_witness:
  "ValidateHash
     (Encode (Values_Set (to_Values (fmap_of_list [(''a=%'', ''v''), (''Hash'', ''x y'')])) ''hash''
        (GenerateHash (to_Values (fmap_of_list [(''a=%'', ''v''), (''Hash'', ''x y'')])) ''k'')))
     ''k'' = None
   \<and> ValidateHash
     (serialize (fmap_of_list [(''a=%'', ''v''), (''Hash'', ''x y'')])
        (GenerateHash (to_Values (fmap_of_list [(''a=%'', ''v''), (''Hash'', ''x y'')])) ''k''))
     ''k'' = None"
  by (rule round_trip)




text \<open>
  C6, as stated, fails: the payload \<open>a=%\<close> has no hash pair, and \<open>ValidateHash\<close>
  returns the decode error of its pair, not a mismatch error.
\<close>

theorem no_hash_pair_counterexample:
  "\<not> list_ex is_hash_pair (Split ''a=%'' CHR ''&'')
   \<and> ValidateHash ''a=%'' ''k'' = Some (DecodeError ''a'' (EscapeError ''%''))"
  by code_simp

text \<open>
  C6, amended. For every payload without a hash pair and every secret, \<open>ValidateHash\<close>
  returns an error. When the values of all its pairs percent-decode, as in
  \<open>status=Error\<close> and in the empty text, it is the mismatch error: the received signature
  is the empty string, and the expected one, of 128 characters, differs from it.
  Otherwise it is the decode error of the first pair that does not decode.
\<close>

theorem no_hash_pair_fails:
  assumes "\<not> list_ex is_hash_pair (Split raw CHR ''&'')"
  shows "ValidateHash raw K \<noteq> None
    \<and> (first_failure (Split raw CHR ''&'') = None \<longrightarrow>
         ValidateHash raw K
           = Some (InvalidHash ''''
               (upper_hex (Sum512 (bytes (wire_input (Split raw CHR ''&'') @ K)))))
         \<and> length (upper_hex (Sum512 (bytes (wire_input (Split raw CHR ''&'') @ K)))) = 128)
    \<and> (first_failure (Split raw CHR ''&'') \<noteq> None \<longrightarrow>
         ValidateHash raw K = first_failure (Split raw CHR ''&''))
    \<and> ValidateHash ''status=Error'' K
         = Some (InvalidHash '''' (upper_hex (Sum512 (bytes (''Error'' @ K)))))
    \<and> ValidateHash '''' K = Some (InvalidHash '''' (upper_hex (Sum512 (bytes K))))"
proof -
  let ?ts = "Split raw CHR ''&''"
  have r: "received_hash ?ts = ''''"
    using assms by (rule received_hash_none)
  have general: "ValidateHash raw K =
      (case first_failure ?ts of
         Some e \<Rightarrow> Some e
       | None \<Rightarrow> Some (InvalidHash '''' (upper_hex (Sum512 (bytes (wire_input ?ts @ K))))))"
    using upper_hex_nonempty [of "bytes (wire_input ?ts @ K)"]
    by (simp add: ValidateHash_spec verifier_def r split: option.splits)
  have status: "Split ''status=Error'' CHR ''&'' = [''status=Error'']"
    by code_simp
  have st: "ToLower ''status'' \<noteq> ''hash''" "QueryUnescape ''Error'' = Inr ''Error''"
    by code_simp+
  have "first_failure [''status=Error''] = None" "wire_input [''status=Error''] = ''Error''"
    "received_hash [''status=Error''] = ''''"
    by (simp_all add: wire_input_def decoded_value_def received_hash_def is_data_pair_def
        is_hash_pair_def pair_Cons pair_Nil st)
  then have a: "ValidateHash ''status=Error'' K
      = Some (InvalidHash '''' (upper_hex (Sum512 (bytes (''Error'' @ K)))))"
    using upper_hex_nonempty [of "bytes (''Error'' @ K)"]
    by (simp add: ValidateHash_spec status verifier_def)
  have empty: "Split '''' CHR ''&'' = ['''']"
    by code_simp
  have "first_failure [''''] = None" "wire_input [''''] = ''''" "received_hash [''''] = ''''"
    by (simp_all add: wire_input_def received_hash_def is_data_pair_def is_hash_pair_def
        pair_Nil)
  then have b: "ValidateHash '''' K = Some (InvalidHash '''' (upper_hex (Sum512 (bytes K))))"
    using upper_hex_nonempty [of "bytes K"]
    by (simp add: ValidateHash_spec empty verifier_def)
  show ?thesis
    using a b by (auto simp: general length_upper_hex length_Sum512 split: option.splits)
qed

theorem no_hash_pair_fails_witness:
  "\<not> list_ex is_hash_pair (Split ''status=Ok&browserurl=https://example.com'' CHR ''&'')
   \<and> ValidateHash ''status=Ok&browserurl=https://example.com'' ''test-integration-key'' \<noteq> None"
proof -
  have h: "\<not> list_ex is_hash_pair (Split ''status=Ok&browserurl=https://example.com'' CHR ''&'')"
    by code_simp
  show ?thesis
    using h no_hash_pair_fails [OF h, of "''test-integration-key''"] by blast
qed

text \<open>
  C7. \<open>ValidateHash\<close> fails whenever the value of a data pair cannot be
  percent-decoded. The error is the decode error that names the first such pair in the
  order of the text; it is returned whatever follows that pair and whatever the secret
  and the signature are, so no signatures are compared.
\<close>

theorem decode_error_first:
  "(Split raw CHR ''&'' = pre @ t # post \<and> is_data_pair t
      \<and> QueryUnescape (pair_value t) = Inl e
      \<and> (\<forall>u\<in>set pre. is_data_pair u \<longrightarrow> (\<exists>d. QueryUnescape (pair_value u) = Inr d))
     \<longrightarrow> ValidateHash raw K = Some (DecodeError (pair_name t) e))
   \<and> ((\<exists>t\<in>set (Split raw CHR ''&''). is_data_pair t \<and> isl (QueryUnescape (pair_value t)))
     \<longrightarrow> (\<exists>u e'. u \<in> set (Split raw CHR ''&'') \<and> is_data_pair u
            \<and> QueryUnescape (pair_value u) = Inl e'
            \<and> ValidateHash raw K = Some (DecodeError (pair_name u) e')))"
proof (intro conjI impI)
  assume a: "Split raw CHR ''&'' = pre @ t # post \<and> is_data_pair t
      \<and> QueryUnescape (pair_value t) = Inl e
      \<and> (\<forall>u\<in>set pre. is_data_pair u \<longrightarrow> (\<exists>d. QueryUnescape (pair_value u) = Inr d))"
  then have "first_failure pre = None"
    by (simp add: first_failure_None_iff)
  with a have "first_failure (Split raw CHR ''&'') = Some (DecodeError (pair_name t) e)"
    by (simp add: first_failure_at)
  then show "ValidateHash raw K = Some (DecodeError (pair_name t) e)"
    by (simp add: ValidateHash_spec verifier_def)
next
  assume "\<exists>t\<in>set (Split raw CHR ''&''). is_data_pair t \<and> isl (QueryUnescape (pair_value t))"
  then obtain t e where "t \<in> set (Split raw CHR ''&'')" "is_data_pair t"
    "QueryUnescape (pair_value t) = Inl e"
    by (auto simp: isl_def)
  from first_failure_exists [OF this] obtain u e' where
    u: "u \<in> set (Split raw CHR ''&'')" "is_data_pair u" "QueryUnescape (pair_value u) = Inl e'"
    and ff: "first_failure (Split raw CHR ''&'') = Some (DecodeError (pair_name u) e')"
    by blast
  from ff have "ValidateHash raw K = Some (DecodeError (pair_name u) e')"
    by (simp add: ValidateHash_spec verifier_def)
  with u show "\<exists>u e'. u \<in> set (Split raw CHR ''&'') \<and> is_data_pair u
      \<and> QueryUnescape (pair_value u) = Inl e'
      \<and> ValidateHash raw K = Some (DecodeError (pair_name u) e')"
    by blast
qed

theorem decode_error_first_witness:
  "Split ''a=1&b=%zz&c=%&hash=AB'' CHR ''&'' = [''a=1''] @ ''b=%zz'' # [''c=%'', ''hash=AB'']
   \<and> is_data_pair ''b=%zz''
   \<and> QueryUnescape (pair_value ''b=%zz'') = Inl (EscapeError ''%zz'')
   \<and> QueryUnescape (pair_value ''a=1'') = Inr ''1''
   \<and> ValidateHash ''a=1&b=%zz&c=%&hash=AB'' ''k''
       = Some (DecodeError (pair_name ''b=%zz'') (EscapeError ''%zz''))
   \<and> pair_name ''b=%zz'' = ''b''"
proof -
  have s: "Split ''a=1&b=%zz&c=%&hash=AB'' CHR ''&'' = [''a=1''] @ ''b=%zz'' # [''c=%'', ''hash=AB'']"
    by code_simp
  have d: "is_data_pair ''b=%zz''"
    by code_simp
  have q: "QueryUnescape (pair_value ''b=%zz'') = Inl (EscapeError ''%zz'')"
    by code_simp
  have a: "QueryUnescape (pair_value ''a=1'') = Inr ''1''"
    by code_simp
  then have p: "\<forall>u\<in>set [''a=1'']. is_data_pair u \<longrightarrow> (\<exists>d. QueryUnescape (pair_value u) = Inr d)"
    by simp
  have n: "pair_name ''b=%zz'' = ''b''"
    by code_simp
  show ?thesis
    using s d q a p n
      decode_error_first [of "''a=1&b=%zz&c=%&hash=AB''" "[''a=1'']" "''b=%zz''"
        "[''c=%'', ''hash=AB'']" "EscapeError ''%zz''" "''k''"]
    by blast
qed

text \<open>
  C9. When the payload has one hash pair or several, the signature that is compared
  is the value of the last of them in the order of the text, as it stands there (it is
  not percent-decoded), and the values of the hash pairs are no part of the hash input:
  the expected signature is computed from the tokens other than the hash pairs.
\<close>

theorem last_hash_pair_wins:
  assumes "filter is_hash_pair (Split raw CHR ''&'') \<noteq> []"
  shows "ValidateHash raw K =
    (let ts = Split raw CHR ''&'';
         received = pair_value (last (filter is_hash_pair ts));
         data = filter (\<lambda>t. \<not> is_hash_pair t) ts;
         expected = upper_hex (Sum512 (bytes (wire_input data @ K)))
     in case first_failure data of
          Some e \<Rightarrow> Some e
        | None \<Rightarrow> if received \<noteq> expected then Some (InvalidHash received expected) else None)"
  using received_hash_last [OF assms]
  by (simp add: ValidateHash_spec verifier_def first_failure_data wire_input_data Let_def
      cong: option.case_cong)

theorem last_hash_pair_wins_witness:
  "filter is_hash_pair (Split ''hash=AB&x=5&Hash=%zz'' CHR ''&'') \<noteq> []
   \<and> ValidateHash ''hash=AB&x=5&Hash=%zz'' ''s''
       = Some (InvalidHash ''%zz'' (upper_hex (Sum512 (bytes ''5s''))))"
proof -
  have s: "Split ''hash=AB&x=5&Hash=%zz'' CHR ''&'' = [''hash=AB'', ''x=5'', ''Hash=%zz'']"
    by code_simp
  have h: "filter is_hash_pair [''hash=AB'', ''x=5'', ''Hash=%zz''] = [''hash=AB'', ''Hash=%zz'']"
    by code_simp
  have d: "filter (\<lambda>t. \<not> is_hash_pair t) [''hash=AB'', ''x=5'', ''Hash=%zz''] = [''x=5'']"
    by code_simp
  have f: "first_failure [''x=5''] = None"
    by code_simp
  have w: "wire_input [''x=5''] = ''5''"
    by code_simp
  have v: "pair_value ''Hash=%zz'' = ''%zz''"
    by code_simp
  have ne: "filter is_hash_pair (Split ''hash=AB&x=5&Hash=%zz'' CHR ''&'') \<noteq> []"
    unfolding s h by simp
  have l: "last [''hash=AB'', ''Hash=%zz''] = ''Hash=%zz''"
    by simp
  have "length ''%zz'' \<noteq> length (upper_hex (Sum512 (bytes ''5s'')))"
    by (simp add: length_upper_hex length_Sum512)
  then have neq: "''%zz'' \<noteq> upper_hex (Sum512 (bytes ''5s''))"
    by metis
  have "ValidateHash ''hash=AB&x=5&Hash=%zz'' ''s''
      = Some (InvalidHash ''%zz'' (upper_hex (Sum512 (bytes ''5s''))))"
    unfolding last_hash_pair_wins [OF ne, of "''s''"] Let_def s h d l v f w
    using neq by simp
  with ne show ?thesis
    by (rule conjI)
qed

end
